theory Spec2Isabelle
  imports Main
begin

section \<open>JavaScript values and the host library\<close>

text \<open>
  A stored element of a SelfMap is an object; objects and arrays have an identity, and the
  class compares with \<open>===\<close>. Records are therefore references into a store of objects,
  the arrays that hold them are references into a store of arrays, and a SelfMap instance is a
  reference into a store of instances. A number is an integer here (on the fractions and
  the infinities, which are left out, \<open>===\<close> is equality of the value as well), and
  NaN is a value of its own. A field that an object does not have reads as \<open>undefined\<close>.
\<close>

type_synonym ref = nat
type_synonym aref = nat
type_synonym mref = nat
type_synonym field = string

datatype jsval =
    JUndefined
  | JNull
  | JBool bool
  | JNum int
  | JNaN
  | JStr string
  | JObj ref

datatype error = TypeError

fun typeof :: "jsval \<Rightarrow> string" where
  "typeof JUndefined = ''undefined''"
| "typeof JNull = ''object''"
| "typeof (JBool b) = ''boolean''"
| "typeof (JNum n) = ''number''"
| "typeof JNaN = ''number''"
| "typeof (JStr x) = ''string''"
| "typeof (JObj r) = ''object''"

text \<open>\<open>a === b\<close>: equal values of one type, except that NaN is not equal to itself.\<close>

definition strict_eq :: "jsval \<Rightarrow> jsval \<Rightarrow> bool" where
  "strict_eq a b = (a = b \<and> a \<noteq> JNaN)"

text \<open>\<open>Array.prototype.some\<close>, \<open>findIndex\<close> (the index of the first match, or -1),
  \<open>xs[i] = v\<close> and \<open>splice(i, 1)\<close> (the removed elements and what remains).\<close>

primrec array_some :: "('a \<Rightarrow> bool) \<Rightarrow> 'a list \<Rightarrow> bool" where
  "array_some p [] = False"
| "array_some p (x # xs) = (if p x then True else array_some p xs)"

primrec findIndex_from :: "nat \<Rightarrow> ('a \<Rightarrow> bool) \<Rightarrow> 'a list \<Rightarrow> int" where
  "findIndex_from k p [] = - 1"
| "findIndex_from k p (x # xs) = (if p x then int k else findIndex_from (Suc k) p xs)"

definition findIndex :: "('a \<Rightarrow> bool) \<Rightarrow> 'a list \<Rightarrow> int" where
  "findIndex p xs = findIndex_from 0 p xs"

text \<open>
  An assignment at a negative index sets a named property of the array object: no element
  changes, and neither \<open>length\<close> nor any iteration sees it. An index past the last
  element would leave holes, which a list cannot hold; \<open>findIndex\<close>, the only source of
  the index here, never returns one (lemma \<open>findIndex_less\<close>).
\<close>

definition array_assign :: "int \<Rightarrow> 'a \<Rightarrow> 'a list \<Rightarrow> 'a list" where
  "array_assign i v xs =
     (if i < 0 then xs
      else if nat i < length xs then xs[nat i := v]
      else xs @ [v])"

definition splice1 :: "nat \<Rightarrow> 'a list \<Rightarrow> 'a list \<times> 'a list" where
  "splice1 i xs = (take 1 (drop i xs), take i xs @ drop (Suc i) xs)"

fun join_with :: "string \<Rightarrow> string list \<Rightarrow> string" where
  "join_with sep [] = []"
| "join_with sep [x] = x"
| "join_with sep (x # y # ys) = x @ sep @ join_with sep (y # ys)"

definition newline :: string where
  "newline = [CHR 0x0A]"

section \<open>The store\<close>

text \<open>The two private fields of an instance: \<open>#values\<close> and \<open>#uniqueProperty\<close>.\<close>

record selfmap =
  values_f :: aref
  uniqueProperty_f :: field

record state =
  objects :: "ref \<Rightarrow> field \<Rightarrow> jsval"
  arrays :: "aref \<Rightarrow> ref list"
  maps :: "mref \<Rightarrow> selfmap"
  next_aref :: aref
  next_mref :: mref
  console :: "string list"

text \<open>What the caller does outside the class: an array literal, and \<open>r.f = v\<close>.\<close>

definition new_array :: "ref list \<Rightarrow> state \<Rightarrow> aref \<times> state" where
  "new_array xs s =
     (next_aref s, s\<lparr>arrays := (arrays s)(next_aref s := xs), next_aref := Suc (next_aref s)\<rparr>)"

definition set_field :: "ref \<Rightarrow> field \<Rightarrow> jsval \<Rightarrow> state \<Rightarrow> state" where
  "set_field r f v s = s\<lparr>objects := (objects s)(r := (objects s r)(f := v))\<rparr>"

section \<open>The class SelfMap\<close>

text \<open>The elements of \<open>this.#values\<close>, and \<open>ele[this.#uniqueProperty]\<close>.\<close>

definition this_values :: "state \<Rightarrow> mref \<Rightarrow> ref list" where
  "this_values s this = arrays s (values_f (maps s this))"

definition key_of :: "state \<Rightarrow> mref \<Rightarrow> ref \<Rightarrow> jsval" where
  "key_of s this ele = objects s ele (uniqueProperty_f (maps s this))"

text \<open>A method that changes the array \<open>this.#values\<close> refers to changes it in place.\<close>

definition store_values :: "mref \<Rightarrow> ref list \<Rightarrow> state \<Rightarrow> state" where
  "store_values this xs s = s\<lparr>arrays := (arrays s)(values_f (maps s this) := xs)\<rparr>"

definition uniqueProperty :: "mref \<Rightarrow> state \<Rightarrow> field" where
  "uniqueProperty this s = uniqueProperty_f (maps s this)"

definition size_sm :: "mref \<Rightarrow> state \<Rightarrow> nat" where
  "size_sm this s = length (this_values s this)"

text \<open>The constructor keeps the caller's array itself, not a copy.\<close>

definition new_SelfMap :: "aref \<Rightarrow> field \<Rightarrow> state \<Rightarrow> mref \<times> state" where
  "new_SelfMap objs uniq s =
     (next_mref s,
      s\<lparr>maps := (maps s)(next_mref s := \<lparr>values_f = objs, uniqueProperty_f = uniq\<rparr>),
        next_mref := Suc (next_mref s)\<rparr>)"

definition isKey :: "jsval \<Rightarrow> bool" where
  "isKey v = (typeof v = ''string'' \<or> typeof v = ''number'')"

definition has :: "mref \<Rightarrow> jsval \<Rightarrow> state \<Rightarrow> bool" where
  "has this keyOrValue s =
     (if isKey keyOrValue
      then array_some (\<lambda>ele. strict_eq (key_of s this ele) keyOrValue) (this_values s this)
      else array_some (\<lambda>ele. strict_eq (JObj ele) keyOrValue) (this_values s this))"

definition add :: "mref \<Rightarrow> ref \<Rightarrow> state \<Rightarrow> mref \<times> state" where
  "add this val s =
     (if \<not> has this (JObj val) s then
        (if has this (key_of s this val) s
         then (this,
               store_values this
                 (array_assign
                    (findIndex (\<lambda>ele. strict_eq (key_of s this ele) (key_of s this val))
                       (this_values s this))
                    val (this_values s this)) s)
         else (this, store_values this (this_values s this @ [val]) s))
      else (this, s))"

primrec get_loop :: "(ref \<Rightarrow> jsval) \<Rightarrow> jsval \<Rightarrow> ref list \<Rightarrow> jsval" where
  "get_loop kf key [] = JUndefined"
| "get_loop kf key (ele # rest) =
     (if strict_eq (kf ele) key then JObj ele else get_loop kf key rest)"

definition get :: "mref \<Rightarrow> jsval \<Rightarrow> state \<Rightarrow> jsval" where
  "get this key s = get_loop (key_of s this) key (this_values s this)"

text \<open>\<open>this.#values = []\<close>: the field refers to a new, empty array.\<close>

definition clear :: "mref \<Rightarrow> state \<Rightarrow> state" where
  "clear this s =
     s\<lparr>arrays := (arrays s)(next_aref s := []),
       maps := (maps s)(this := (maps s this)\<lparr>values_f := next_aref s\<rparr>),
       next_aref := Suc (next_aref s)\<rparr>"

text \<open>
  \<open>delete\<close> returns the removed record for a key and the record's key for a record.
  Reading \<open>[0]\<close> of an empty result of \<open>splice\<close> is \<open>undefined\<close>, and reading a
  property of \<open>undefined\<close> throws.
\<close>

definition delete :: "mref \<Rightarrow> jsval \<Rightarrow> state \<Rightarrow> (error + jsval) \<times> state" where
  "delete this keyOrValue s =
     (let isK = isKey keyOrValue;
          index = (if isK
                   then findIndex (\<lambda>ele. strict_eq (key_of s this ele) keyOrValue) (this_values s this)
                   else findIndex (\<lambda>ele. strict_eq (JObj ele) keyOrValue) (this_values s this))
      in if index = - 1 then (Inr JUndefined, s)
         else (let (removed, rest) = splice1 (nat index) (this_values s this);
                   s' = store_values this rest s
               in if isK
                  then (case removed of [] \<Rightarrow> (Inr JUndefined, s')
                        | ele # _ \<Rightarrow> (Inr (JObj ele), s'))
                  else (case removed of [] \<Rightarrow> (Inl TypeError, s')
                        | ele # _ \<Rightarrow> (Inr (key_of s' this ele), s'))))"

section \<open>Iterators\<close>

text \<open>
  \<open>Iterator.from\<close> of an array returns the array's own iterator, which holds the array
  and an index, reads the length of the array at every call of \<open>next\<close>, and drops the
  array once it has reported the end. \<open>values()\<close> hands it \<open>this.#values\<close> itself, so
  the iterated array is an address in the store; \<open>keys()\<close> and \<open>entries()\<close> hand it the
  array that \<open>map\<close> has just built, which nothing but the iterator refers to, so the
  iterator carries that array's elements. The parameter \<open>rd\<close> reads the elements of the
  iterated array; \<open>None\<close> is the result \<open>{done: true}\<close>.
\<close>

record 'src array_iterator =
  iterated :: "'src option"
  nextIndex :: nat

definition iter_next ::
  "('src \<Rightarrow> 'a list) \<Rightarrow> 'src array_iterator \<Rightarrow> 'a option \<times> 'src array_iterator" where
  "iter_next rd it =
     (case iterated it of
        None \<Rightarrow> (None, it)
      | Some a \<Rightarrow>
          if nextIndex it < length (rd a)
          then (Some (rd a ! nextIndex it), it\<lparr>nextIndex := Suc (nextIndex it)\<rparr>)
          else (None, it\<lparr>iterated := None\<rparr>))"

definition live :: "state \<Rightarrow> aref \<Rightarrow> ref list" where
  "live s a = arrays s a"

definition own :: "state \<Rightarrow> 'a list \<Rightarrow> 'a list" where
  "own s xs = xs"

text \<open>\<open>n\<close> calls of \<open>next\<close>, and the values of all the calls up to the end.\<close>

primrec advance ::
  "nat \<Rightarrow> ('src \<Rightarrow> 'a list) \<Rightarrow> 'src array_iterator \<Rightarrow> 'src array_iterator" where
  "advance 0 rd it = it"
| "advance (Suc n) rd it = advance n rd (snd (iter_next rd it))"

function drain :: "('src \<Rightarrow> 'a list) \<Rightarrow> 'src array_iterator \<Rightarrow> 'a list" where
  "drain rd it =
     (case fst (iter_next rd it) of
        None \<Rightarrow> []
      | Some v \<Rightarrow> v # drain rd (snd (iter_next rd it)))"
  by pat_completeness auto
termination
  by (relation "measure (\<lambda>(rd, it).
        case iterated it of None \<Rightarrow> 0 | Some a \<Rightarrow> length (rd a) - nextIndex it)")
     (auto simp: iter_next_def split: option.splits if_splits)

declare drain.simps [simp del]

definition keys :: "mref \<Rightarrow> state \<Rightarrow> jsval list array_iterator" where
  "keys this s =
     \<lparr>iterated = Some (map (\<lambda>ele. key_of s this ele) (this_values s this)), nextIndex = 0\<rparr>"

definition values_sm :: "mref \<Rightarrow> state \<Rightarrow> aref array_iterator" where
  "values_sm this s = \<lparr>iterated = Some (values_f (maps s this)), nextIndex = 0\<rparr>"

definition entries :: "mref \<Rightarrow> state \<Rightarrow> (jsval \<times> ref) list array_iterator" where
  "entries this s =
     \<lparr>iterated = Some (map (\<lambda>ele. (key_of s this ele, ele)) (this_values s this)),
      nextIndex = 0\<rparr>"

section \<open>Rendering\<close>

text \<open>
  How a value is turned into text belongs to the host, not to the class: a template literal
  applies the conversion to string (for an object, its \<open>toString\<close> method, which gives
  \<open>[object Object]\<close> unless the object brings its own), and \<open>console.log\<close> writes a
  string argument as it is and any other argument in the console's inspection format.
  Both are parameters here, given the store of objects and the value. \<open>console.log\<close>
  joins its arguments with one space and writes one entry.
\<close>

type_synonym formatter = "(ref \<Rightarrow> field \<Rightarrow> jsval) \<Rightarrow> jsval \<Rightarrow> string"

definition format_arg :: "formatter \<Rightarrow> (ref \<Rightarrow> field \<Rightarrow> jsval) \<Rightarrow> jsval \<Rightarrow> string" where
  "format_arg inspect h v = (case v of JStr x \<Rightarrow> x | _ \<Rightarrow> inspect h v)"

definition console_log :: "formatter \<Rightarrow> jsval list \<Rightarrow> state \<Rightarrow> state" where
  "console_log inspect args s =
     s\<lparr>console := console s @ [join_with '' '' (map (format_arg inspect (objects s)) args)]\<rparr>"

definition print :: "formatter \<Rightarrow> formatter \<Rightarrow> mref \<Rightarrow> state \<Rightarrow> state" where
  "print inspect str this s =
     (if length (this_values s this) \<noteq> 0 then
        (let s1 = console_log inspect
                    [JStr (''SelfMap('' @ str (objects s) (JNum (int (size_sm this s))) @ '') {'')] s;
             s2 = foldl (\<lambda>t ele. console_log inspect
                           [JStr '' '', key_of t this ele, JStr ''=>'', JObj ele] t)
                    s1 (this_values s this)
         in console_log inspect [JStr ''}''] s2)
      else console_log inspect
             [JStr (''SelfMap('' @ str (objects s) (JNum (int (size_sm this s))) @ '') {}'')] s)"

definition toString :: "formatter \<Rightarrow> mref \<Rightarrow> state \<Rightarrow> string" where
  "toString str this s =
     (if length (this_values s this) = 0
      then ''SelfMap('' @ str (objects s) (JNum (int (size_sm this s))) @ '') {}''
      else foldl (\<lambda>acc ele. acc @ ''  '' @ str (objects s) (key_of s this ele) @ '' => ''
                               @ str (objects s) (JObj ele) @ newline)
             (''SelfMap('' @ str (objects s) (JNum (int (size_sm this s))) @ '') {'' @ newline)
             (this_values s this)
           @ ''}'')"

section \<open>Programs over the store\<close>

text \<open>
  One statement of a program that uses the class. \<open>has\<close>, \<open>get\<close>, \<open>size\<close>,
  \<open>uniqueProperty\<close>, \<open>keys\<close>, \<open>values\<close>, \<open>entries\<close>, \<open>toString\<close> and the
  iterator's \<open>next\<close> return a value and write nothing, so a statement that calls one of them
  leaves the store as it is. \<open>forEach\<close> writes nothing of its own either: what its
  callback does is the caller's code, a sequence of such statements.
\<close>

datatype call =
    Has mref jsval
  | Add mref ref
  | Get mref jsval
  | Delete mref jsval
  | Clear mref
  | Keys mref
  | Values mref
  | Entries mref
  | Print formatter formatter mref
  | ToString formatter mref
  | SetField ref field jsval
  | NewArray "ref list"
  | NewSelfMap aref field

fun exec :: "call \<Rightarrow> state \<Rightarrow> state" where
  "exec (Has this x) s = s"
| "exec (Add this val) s = snd (add this val s)"
| "exec (Get this key) s = s"
| "exec (Delete this x) s = snd (delete this x s)"
| "exec (Clear this) s = clear this s"
| "exec (Keys this) s = s"
| "exec (Values this) s = s"
| "exec (Entries this) s = s"
| "exec (Print inspect str this) s = print inspect str this s"
| "exec (ToString str this) s = s"
| "exec (SetField r f v) s = set_field r f v s"
| "exec (NewArray xs) s = snd (new_array xs s)"
| "exec (NewSelfMap objs uniq) s = snd (new_SelfMap objs uniq s)"

definition run :: "call list \<Rightarrow> state \<Rightarrow> state" where
  "run cs s = foldl (\<lambda>t c. exec c t) s cs"

section \<open>Example stores\<close>

text \<open>
  The store of the README: Ahmed, Sara and Bob (objects 0, 1, 2, with \<open>id\<close> 1, 2, 3) in an
  array handed to \<open>new SelfMap(..., "id")\<close>, and Yousef (object 3, \<open>id\<close> 4) outside it.
  The instance is 0 and its array is 0.
\<close>

definition blank :: state where
  "blank = \<lparr>objects = (\<lambda>r f. JUndefined), arrays = (\<lambda>a. []),
            maps = (\<lambda>m. \<lparr>values_f = 0, uniqueProperty_f = []\<rparr>),
            next_aref = 0, next_mref = 0, console = []\<rparr>"

definition users :: state where
  "users =
     snd (new_SelfMap 0 ''id''
       (snd (new_array [0, 1, 2]
         (set_field 3 ''id'' (JNum 4)
           (set_field 2 ''id'' (JNum 3)
             (set_field 1 ''id'' (JNum 2)
               (set_field 0 ''id'' (JNum 1) blank)))))))"

text \<open>Two objects whose \<open>flag\<close> is \<open>true\<close>; the first is stored in a map keyed on \<open>flag\<close>.\<close>

definition flags :: state where
  "flags =
     snd (new_SelfMap 0 ''flag''
       (snd (new_array [0]
         (set_field 1 ''flag'' (JBool True)
           (set_field 0 ''flag'' (JBool True) blank)))))"

text \<open>One stored object \<open>{ id: 1 }\<close>.\<close>

definition solo :: state where
  "solo = snd (new_SelfMap 0 ''id'' (snd (new_array [0] (set_field 0 ''id'' (JNum 1) blank))))"

text \<open>
  The host's two renderings on the values of \<open>solo\<close>: the conversion to string of a
  template literal (decimal digits for an integer below \<open>10^21\<close>, \<open>[object Object]\<close>
  for an object literal), and the console's inspection format of an object whose only property
  is a numeric \<open>id\<close>.
\<close>

definition digit :: "nat \<Rightarrow> char" where
  "digit d = ''0123456789'' ! d"

fun decimal :: "nat \<Rightarrow> string" where
  "decimal n = (if n < 10 then [digit n] else decimal (n div 10) @ [digit (n mod 10)])"

definition plain_str :: formatter where
  "plain_str h v =
     (case v of
        JUndefined \<Rightarrow> ''undefined''
      | JNull \<Rightarrow> ''null''
      | JBool b \<Rightarrow> (if b then ''true'' else ''false'')
      | JNum n \<Rightarrow> (if n < 0 then ''-'' @ decimal (nat (- n)) else decimal (nat n))
      | JNaN \<Rightarrow> ''NaN''
      | JStr x \<Rightarrow> x
      | JObj r \<Rightarrow> ''[object Object]'')"

definition id_inspect :: formatter where
  "id_inspect h v =
     (case v of
        JObj r \<Rightarrow> ''{ id: '' @ plain_str h (h r ''id'') @ '' }''
      | _ \<Rightarrow> plain_str h v)"

section \<open>The array functions\<close>

lemma array_some_iff: "array_some p xs = (\<exists>x\<in>set xs. p x)"
  by (induction xs) auto

lemma findIndex_from_range:
  "findIndex_from k p xs = - 1 \<or>
   (int k \<le> findIndex_from k p xs \<and> findIndex_from k p xs < int k + int (length xs))"
  by (induction xs arbitrary: k) (auto, force+)

lemma findIndex_less: "- 1 \<le> findIndex p xs \<and> findIndex p xs < int (length xs)"
  using findIndex_from_range [of 0 p xs] by (auto simp: findIndex_def)

lemma findIndex_from_first:
  "i < length xs \<Longrightarrow> p (xs ! i) \<Longrightarrow> \<forall>j<i. \<not> p (xs ! j) \<Longrightarrow>
   findIndex_from k p xs = int (k + i)"
proof (induction xs arbitrary: k i)
  case Nil
  then show ?case by simp
next
  case (Cons x xs)
  show ?case
  proof (cases i)
    case 0
    with Cons.prems show ?thesis by simp
  next
    case (Suc n)
    with Cons.prems have "\<not> p x" by auto
    moreover have "findIndex_from (Suc k) p xs = int (Suc k + n)"
      using Cons.prems Suc by (intro Cons.IH) auto
    ultimately show ?thesis using Suc by simp
  qed
qed

lemma findIndex_first:
  "i < length xs \<Longrightarrow> p (xs ! i) \<Longrightarrow> \<forall>j<i. \<not> p (xs ! j) \<Longrightarrow> findIndex p xs = int i"
  using findIndex_from_first [of i xs p 0] by (simp add: findIndex_def)

lemma findIndex_from_none: "\<forall>x\<in>set xs. \<not> p x \<Longrightarrow> findIndex_from k p xs = - 1"
  by (induction xs arbitrary: k) auto

lemma findIndex_none: "\<forall>x\<in>set xs. \<not> p x \<Longrightarrow> findIndex p xs = - 1"
  by (simp add: findIndex_def findIndex_from_none)

lemma first_match:
  assumes "\<exists>x\<in>set xs. p x"
  shows "\<exists>i<length xs. p (xs ! i) \<and> (\<forall>j<i. \<not> p (xs ! j))"
proof -
  from assms have ex: "\<exists>i. i < length xs \<and> p (xs ! i)"
    by (auto simp: in_set_conv_nth)
  define i where "i = (LEAST i. i < length xs \<and> p (xs ! i))"
  have hit: "i < length xs \<and> p (xs ! i)"
    unfolding i_def using ex by (rule LeastI_ex)
  have "\<forall>j<i. \<not> p (xs ! j)"
  proof (intro allI impI)
    fix j assume "j < i"
    then have "\<not> (j < length xs \<and> p (xs ! j))"
      unfolding i_def by (rule not_less_Least)
    moreover have "j < length xs" using \<open>j < i\<close> hit by simp
    ultimately show "\<not> p (xs ! j)" by simp
  qed
  with hit show ?thesis by blast
qed

lemma splice1_at:
  "i < length xs \<Longrightarrow> splice1 i xs = ([xs ! i], take i xs @ drop (Suc i) xs)"
  by (simp add: splice1_def Cons_nth_drop_Suc [symmetric])

lemma get_loop_first:
  "i < length xs \<Longrightarrow> strict_eq (kf (xs ! i)) key \<Longrightarrow>
   \<forall>j<i. \<not> strict_eq (kf (xs ! j)) key \<Longrightarrow> get_loop kf key xs = JObj (xs ! i)"
proof (induction xs arbitrary: i)
  case Nil
  then show ?case by simp
next
  case (Cons x xs)
  show ?case
  proof (cases i)
    case 0
    with Cons.prems show ?thesis by simp
  next
    case (Suc n)
    with Cons.prems have "\<not> strict_eq (kf x) key" by auto
    moreover have "get_loop kf key xs = JObj (xs ! n)"
      using Cons.prems Suc by (intro Cons.IH) auto
    ultimately show ?thesis using Suc by simp
  qed
qed

lemma get_loop_none:
  "\<forall>x\<in>set xs. \<not> strict_eq (kf x) key \<Longrightarrow> get_loop kf key xs = JUndefined"
  by (induction xs) auto

section \<open>The store under the methods\<close>

lemma strict_eq_plain: "x \<noteq> JNaN \<Longrightarrow> strict_eq a x = (a = x)"
  by (auto simp: strict_eq_def)

lemma this_values_store [simp]: "this_values (store_values this xs s) this = xs"
  by (simp add: this_values_def store_values_def)

lemma key_of_store [simp]: "key_of (store_values this xs s) = key_of s"
  by (simp add: fun_eq_iff key_of_def store_values_def)

lemma maps_store [simp]: "maps (store_values this xs s) = maps s"
  by (simp add: store_values_def)

lemma objects_store [simp]: "objects (store_values this xs s) = objects s"
  by (simp add: store_values_def)

lemma store_values_same [simp]: "store_values this (this_values s this) s = s"
  by (simp add: store_values_def this_values_def)

lemma has_key: "isKey x \<Longrightarrow>
  has this x s = (\<exists>ele\<in>set (this_values s this). strict_eq (key_of s this ele) x)"
  by (simp add: has_def array_some_iff)

lemma has_record: "\<not> isKey x \<Longrightarrow> has this x s = (\<exists>ele\<in>set (this_values s this). JObj ele = x)"
  by (simp add: has_def array_some_iff strict_eq_def)

lemma has_stored: "has this (JObj r) s = (r \<in> set (this_values s this))"
  by (simp add: has_record isKey_def)

lemma add_stored: "r \<in> set (this_values s this) \<Longrightarrow> add this r s = (this, s)"
  by (simp add: add_def has_stored)

lemma add_replace:
  assumes "r \<notin> set (this_values s this)"
    and "i < length (this_values s this)"
    and "strict_eq (key_of s this (this_values s this ! i)) (key_of s this r)"
    and "\<forall>j<i. \<not> strict_eq (key_of s this (this_values s this ! j)) (key_of s this r)"
    and "isKey (key_of s this r)"
  shows "add this r s = (this, store_values this ((this_values s this)[i := r]) s)"
proof -
  let ?p = "\<lambda>ele. strict_eq (key_of s this ele) (key_of s this r)"
  have idx: "findIndex ?p (this_values s this) = int i"
    using assms(2-4) by (intro findIndex_first) auto
  have "has this (key_of s this r) s"
    using assms(2,3,5) by (auto simp: has_key)
  then show ?thesis
    using assms(1,2) idx by (simp add: add_def has_stored array_assign_def)
qed

lemma add_push:
  "r \<notin> set (this_values s this) \<Longrightarrow> \<not> has this (key_of s this r) s \<Longrightarrow>
   add this r s = (this, store_values this (this_values s this @ [r]) s)"
  by (simp add: add_def has_stored)

lemma add_cases:
  "snd (add this r s) = s \<or> r \<in> set (this_values (snd (add this r s)) this)"
proof (cases "r \<in> set (this_values s this)")
  case True
  then show ?thesis by (simp add: add_stored)
next
  case out: False
  let ?xs = "this_values s this"
  let ?p = "\<lambda>ele. strict_eq (key_of s this ele) (key_of s this r)"
  show ?thesis
  proof (cases "has this (key_of s this r) s")
    case False
    with out show ?thesis by (simp add: add_push)
  next
    case True
    have eq: "snd (add this r s) = store_values this (array_assign (findIndex ?p ?xs) r ?xs) s"
      using out True by (simp add: add_def has_stored)
    show ?thesis
    proof (cases "findIndex ?p ?xs < 0")
      case True
      then show ?thesis using eq by (simp add: array_assign_def)
    next
      case False
      with findIndex_less [of ?p ?xs] have "nat (findIndex ?p ?xs) < length ?xs" by simp
      then have "r \<in> set (array_assign (findIndex ?p ?xs) r ?xs)"
        using False by (simp add: array_assign_def set_update_memI)
      then show ?thesis using eq by simp
    qed
  qed
qed

lemma delete_key_hit:
  assumes "isKey x" and "i < length (this_values s this)"
    and "strict_eq (key_of s this (this_values s this ! i)) x"
    and "\<forall>j<i. \<not> strict_eq (key_of s this (this_values s this ! j)) x"
  shows "delete this x s =
    (Inr (JObj (this_values s this ! i)),
     store_values this (take i (this_values s this) @ drop (Suc i) (this_values s this)) s)"
proof -
  have "findIndex (\<lambda>ele. strict_eq (key_of s this ele) x) (this_values s this) = int i"
    using assms(2-4) by (intro findIndex_first) auto
  then show ?thesis
    using assms(1,2) by (simp add: delete_def splice1_at)
qed

lemma delete_record_hit:
  assumes "\<not> isKey x" and "i < length (this_values s this)"
    and "JObj (this_values s this ! i) = x"
    and "\<forall>j<i. this_values s this ! j \<noteq> this_values s this ! i"
  shows "delete this x s =
    (Inr (key_of s this (this_values s this ! i)),
     store_values this (take i (this_values s this) @ drop (Suc i) (this_values s this)) s)"
proof -
  have "findIndex (\<lambda>ele. strict_eq (JObj ele) x) (this_values s this) = int i"
    using assms(2-4) by (intro findIndex_first) (auto simp: strict_eq_def)
  then show ?thesis
    using assms(1,2) by (simp add: delete_def splice1_at)
qed

lemma delete_miss: "\<not> has this x s \<Longrightarrow> delete this x s = (Inr JUndefined, s)"
  by (cases "isKey x") (simp_all add: delete_def has_def array_some_iff findIndex_none)

lemma delete_cases:
  "delete this x s = (Inr JUndefined, s) \<or>
   (\<exists>i<length (this_values s this). \<exists>v.
      delete this x s =
        (Inr v, store_values this
                  (take i (this_values s this) @ drop (Suc i) (this_values s this)) s))"
proof (cases "has this x s")
  case False
  then show ?thesis by (simp add: delete_miss)
next
  case True
  show ?thesis
  proof (cases "isKey x")
    case True
    with \<open>has this x s\<close> obtain i where "i < length (this_values s this)"
        "strict_eq (key_of s this (this_values s this ! i)) x"
        "\<forall>j<i. \<not> strict_eq (key_of s this (this_values s this ! j)) x"
      using first_match [of "this_values s this" "\<lambda>ele. strict_eq (key_of s this ele) x"]
      by (auto simp: has_key)
    with True show ?thesis using delete_key_hit [of x i s this] by blast
  next
    case False
    with \<open>has this x s\<close> obtain i where "i < length (this_values s this)"
        "JObj (this_values s this ! i) = x"
        "\<forall>j<i. JObj (this_values s this ! j) \<noteq> x"
      using first_match [of "this_values s this" "\<lambda>ele. JObj ele = x"]
      by (auto simp: has_record)
    with False show ?thesis using delete_record_hit [of x i s this] by blast
  qed
qed

lemma distinct_remove_nth: "distinct ys \<Longrightarrow> distinct (take i ys @ drop (Suc i) ys)"
proof (cases "i < length ys")
  case True
  assume "distinct ys"
  then have "distinct (take i ys @ ys ! i # drop (Suc i) ys)"
    using id_take_nth_drop [OF True] by simp
  then show ?thesis by auto
next
  case False
  assume "distinct ys"
  with False show ?thesis by simp
qed

lemma this_values_clear [simp]: "this_values (clear this s) this = []"
  by (simp add: this_values_def clear_def)

lemma this_values_set_field [simp]: "this_values (set_field r f v s) this = this_values s this"
  by (simp add: this_values_def set_field_def)

lemma key_of_set_field:
  "key_of (set_field r (uniqueProperty this s) v s) this ele =
     (if ele = r then v else key_of s this ele)"
  by (simp add: key_of_def set_field_def uniqueProperty_def)

text \<open>
  \<open>add(r)\<close> leaves \<open>r\<close> stored when the designated field of \<open>r\<close> does not hold a
  stored record. When it does, \<open>has\<close> takes the field's value for a record and finds it,
  and where \<open>findIndex\<close> then finds no key that is \<open>===\<close> to it, the assignment at
  index -1 stores nothing.
\<close>

lemma add_then_has:
  assumes nokey: "\<forall>a\<in>set (this_values s this). key_of s this r \<noteq> JObj a"
  shows "has this (JObj r) (snd (add this r s))"
proof (cases "r \<in> set (this_values s this)")
  case True
  then show ?thesis by (simp add: add_stored has_stored)
next
  case out: False
  show ?thesis
  proof (cases "has this (key_of s this r) s")
    case False
    with out show ?thesis by (simp add: add_push has_stored)
  next
    case True
    have scalar: "isKey (key_of s this r)"
    proof (rule ccontr)
      assume "\<not> isKey (key_of s this r)"
      with True nokey show False by (auto simp: has_record)
    qed
    with True obtain i where i: "i < length (this_values s this)"
        "strict_eq (key_of s this (this_values s this ! i)) (key_of s this r)"
        "\<forall>j<i. \<not> strict_eq (key_of s this (this_values s this ! j)) (key_of s this r)"
      using first_match [of "this_values s this"
          "\<lambda>ele. strict_eq (key_of s this ele) (key_of s this r)"]
      by (auto simp: has_key)
    then show ?thesis
      using out scalar by (simp add: add_replace has_stored set_update_memI)
  qed
qed

section \<open>What a statement leaves alone\<close>

lemma foldl_console_only:
  "\<exists>c. foldl (\<lambda>t ele. console_log inspect (args t ele) t) s xs = s\<lparr>console := c\<rparr>"
proof (induction xs arbitrary: s)
  case Nil
  have "s = s\<lparr>console := console s\<rparr>" by simp
  then show ?case by (metis foldl_Nil)
next
  case (Cons x xs)
  obtain c where "foldl (\<lambda>t ele. console_log inspect (args t ele) t)
      (console_log inspect (args s x) s) xs = (console_log inspect (args s x) s)\<lparr>console := c\<rparr>"
    using Cons.IH by blast
  then show ?case by (auto simp: console_log_def)
qed

lemma print_console_only: "\<exists>c. print inspect str this s = s\<lparr>console := c\<rparr>"
proof (cases "length (this_values s this) \<noteq> 0")
  case False
  then show ?thesis by (auto simp: print_def console_log_def)
next
  case True
  let ?s1 = "console_log inspect
      [JStr (''SelfMap('' @ str (objects s) (JNum (int (size_sm this s))) @ '') {'')] s"
  obtain c where "foldl (\<lambda>t ele. console_log inspect
        [JStr '' '', key_of t this ele, JStr ''=>'', JObj ele] t) ?s1 (this_values s this)
      = ?s1\<lparr>console := c\<rparr>"
    using foldl_console_only [of inspect "\<lambda>t ele. [JStr '' '', key_of t this ele, JStr ''=>'', JObj ele]"
        ?s1 "this_values s this"] by blast
  with True show ?thesis by (auto simp: print_def Let_def console_log_def)
qed

lemma add_store_cases:
  "snd (add this r s) = s \<or> (\<exists>xs. snd (add this r s) = store_values this xs s)"
  by (auto simp: add_def)

lemma delete_store_cases:
  "snd (delete this x s) = s \<or> (\<exists>xs. snd (delete this x s) = store_values this xs s)"
  using delete_cases [of this x s] by auto

lemma exec_uniqueProperty:
  assumes "this < next_mref s"
  shows "uniqueProperty this (exec c s) = uniqueProperty this s \<and> this < next_mref (exec c s)"
proof (cases c)
  case (Add that val)
  with assms add_store_cases [of that val s] show ?thesis
    by (auto simp: uniqueProperty_def store_values_def)
next
  case (Delete that x)
  with assms delete_store_cases [of that x s] show ?thesis
    by (auto simp: uniqueProperty_def store_values_def)
next
  case (Clear that)
  with assms show ?thesis by (simp add: uniqueProperty_def clear_def)
next
  case (Print inspect str that)
  with assms print_console_only [of inspect str that s] show ?thesis
    by (auto simp: uniqueProperty_def)
next
  case (NewSelfMap objs uniq)
  with assms show ?thesis by (simp add: uniqueProperty_def new_SelfMap_def)
qed (use assms in \<open>simp_all add: uniqueProperty_def set_field_def new_array_def\<close>)

lemma run_uniqueProperty:
  "this < next_mref s \<Longrightarrow>
   uniqueProperty this (run cs s) = uniqueProperty this s \<and> this < next_mref (run cs s)"
proof (induction cs arbitrary: s)
  case Nil
  then show ?case by (simp add: run_def)
next
  case (Cons c cs)
  from Cons.prems have step: "uniqueProperty this (exec c s) = uniqueProperty this s"
      "this < next_mref (exec c s)"
    using exec_uniqueProperty [of this s c] by simp_all
  from Cons.IH [OF step(2)] step(1) show ?case by (simp add: run_def)
qed

lemma get_clear: "get this key (clear this s) = JUndefined"
  by (simp add: get_def)

section \<open>Iteration\<close>

lemma drain_ended: "iterated it = None \<Longrightarrow> drain rd it = []"
  by (subst drain.simps) (simp add: iter_next_def)

lemma drain_from: "iterated it = Some a \<Longrightarrow> drain rd it = drop (nextIndex it) (rd a)"
proof (induction "length (rd a) - nextIndex it" arbitrary: it)
  case 0
  then show ?case by (subst drain.simps) (simp add: iter_next_def)
next
  case (Suc d)
  then have less: "nextIndex it < length (rd a)" by simp
  let ?it' = "it\<lparr>nextIndex := Suc (nextIndex it)\<rparr>"
  have "drain rd ?it' = drop (nextIndex ?it') (rd a)"
    using Suc by (intro Suc.hyps(1)) simp_all
  then have "drain rd it = rd a ! nextIndex it # drop (Suc (nextIndex it)) (rd a)"
    using Suc.prems less by (subst drain.simps) (simp add: iter_next_def)
  with less show ?case by (simp add: Cons_nth_drop_Suc)
qed

lemma advance_within:
  "iterated it = Some a \<Longrightarrow> nextIndex it + n \<le> length (rd a) \<Longrightarrow>
   advance n rd it = it\<lparr>nextIndex := nextIndex it + n\<rparr>"
proof (induction n arbitrary: it)
  case 0
  then show ?case by simp
next
  case (Suc n)
  let ?it' = "it\<lparr>nextIndex := Suc (nextIndex it)\<rparr>"
  have "advance n rd ?it' = ?it'\<lparr>nextIndex := nextIndex ?it' + n\<rparr>"
    using Suc.prems by (intro Suc.IH) simp_all
  then show ?case using Suc.prems by (simp add: iter_next_def)
qed

lemma advance_ended: "iterated it = None \<Longrightarrow> iterated (advance n rd it) = None"
  by (induction n arbitrary: it) (simp_all add: iter_next_def)

lemma advance_past:
  "iterated it = Some a \<Longrightarrow> nextIndex it \<le> length (rd a) \<Longrightarrow>
   length (rd a) < nextIndex it + n \<Longrightarrow> iterated (advance n rd it) = None"
proof (induction n arbitrary: it)
  case 0
  then show ?case by simp
next
  case (Suc n)
  show ?case
  proof (cases "nextIndex it < length (rd a)")
    case True
    let ?it' = "it\<lparr>nextIndex := Suc (nextIndex it)\<rparr>"
    have "iterated (advance n rd ?it') = None"
      using Suc.prems True by (intro Suc.IH) simp_all
    with True Suc.prems show ?thesis by (simp add: iter_next_def)
  next
    case False
    with Suc.prems show ?thesis by (simp add: iter_next_def advance_ended)
  qed
qed

lemma values_advance:
  "n \<le> length (this_values s this) \<Longrightarrow>
   advance n (live s) (values_sm this s) = \<lparr>iterated = Some (values_f (maps s this)), nextIndex = n\<rparr>"
  using advance_within [of "values_sm this s" "values_f (maps s this)" n "live s"]
  by (simp add: values_sm_def live_def this_values_def)

lemma values_drain_later:
  "n \<le> length (this_values s this) \<Longrightarrow>
   drain (live t) (advance n (live s) (values_sm this s)) = drop n (arrays t (values_f (maps s this)))"
  by (simp add: values_advance drain_from live_def)

lemma values_ended:
  "length (this_values s this) < n \<Longrightarrow>
   drain (live t) (advance n (live s) (values_sm this s)) = []"
  using advance_past [of "values_sm this s" "values_f (maps s this)" "live s" n]
  by (simp add: drain_ended values_sm_def live_def this_values_def)

section \<open>The two renderings\<close>

lemma foldl_console_log:
  "foldl (\<lambda>t ele. console_log inspect [JStr '' '', key_of t this ele, JStr ''=>'', JObj ele] t) s xs
     = s\<lparr>console := console s @
          map (\<lambda>ele. ''  '' @ format_arg inspect (objects s) (key_of s this ele) @ '' => ''
                        @ inspect (objects s) (JObj ele)) xs\<rparr>"
proof (induction xs arbitrary: s)
  case Nil
  then show ?case by simp
next
  case (Cons x xs)
  let ?s1 = "console_log inspect [JStr '' '', key_of s this x, JStr ''=>'', JObj x] s"
  have same: "objects ?s1 = objects s" "key_of ?s1 this = key_of s this"
    by (simp_all add: console_log_def key_of_def fun_eq_iff)
  have "console ?s1 = console s @
      [''  '' @ format_arg inspect (objects s) (key_of s this x) @ '' => ''
         @ inspect (objects s) (JObj x)]"
    by (simp add: console_log_def format_arg_def)
  then show ?case
    by (simp add: Cons.IH same) (simp add: console_log_def)
qed

lemma print_console:
  "this_values s this \<noteq> [] \<Longrightarrow>
   console (print inspect str this s) =
     console s @
     (''SelfMap('' @ str (objects s) (JNum (int (size_sm this s))) @ '') {'') #
     map (\<lambda>ele. ''  '' @ format_arg inspect (objects s) (key_of s this ele) @ '' => ''
                   @ inspect (objects s) (JObj ele)) (this_values s this) @
     [''}'']"
  by (simp add: print_def Let_def foldl_console_log)
     (simp add: console_log_def format_arg_def key_of_def)

lemma print_console_empty:
  "this_values s this = [] \<Longrightarrow>
   console (print inspect str this s) =
     console s @ [''SelfMap('' @ str (objects s) (JNum 0) @ '') {}'']"
  by (simp add: print_def console_log_def format_arg_def size_sm_def)

lemma toString_empty:
  "this_values s this = [] \<Longrightarrow>
   toString str this s = ''SelfMap('' @ str (objects s) (JNum 0) @ '') {}''"
  by (simp add: toString_def size_sm_def)

lemma foldl_append_lines: "foldl (\<lambda>acc ele. acc @ f ele) acc xs = acc @ concat (map f xs)"
  by (induction xs arbitrary: acc) simp_all

lemma toString_lines:
  "this_values s this \<noteq> [] \<Longrightarrow>
   toString str this s =
     ''SelfMap('' @ str (objects s) (JNum (int (size_sm this s))) @ '') {'' @ newline @
     concat (map (\<lambda>ele. ''  '' @ str (objects s) (key_of s this ele) @ '' => ''
                          @ str (objects s) (JObj ele) @ newline) (this_values s this)) @
     ''}''"
  using foldl_append_lines [of "\<lambda>ele. ''  '' @ str (objects s) (key_of s this ele) @ '' => ''
                          @ str (objects s) (JObj ele) @ newline"]
  by (simp add: toString_def)

lemma join_lines: "join_with sep (h # ls @ [z]) = h @ sep @ concat (map (\<lambda>l. l @ sep) ls) @ z"
  by (induction ls arbitrary: h) simp_all

text \<open>
  When the console's format and the conversion to string agree on every stored record and
  on its key, the entries that \<open>print\<close> writes, joined by line breaks, are the string
  that \<open>toString\<close> returns.
\<close>

lemma print_agrees_with_toString:
  assumes "\<forall>ele\<in>set (this_values s this).
      format_arg inspect (objects s) (key_of s this ele) = str (objects s) (key_of s this ele) \<and>
      inspect (objects s) (JObj ele) = str (objects s) (JObj ele)"
  shows "join_with newline (drop (length (console s)) (console (print inspect str this s)))
           = toString str this s"
proof (cases "this_values s this = []")
  case True
  then show ?thesis by (simp add: print_console_empty toString_empty)
next
  case False
  with assms show ?thesis
    by (simp add: print_console toString_lines join_lines comp_def cong: map_cong)
qed

section \<open>Evaluating the example stores\<close>

lemmas store_eval =
  users_def flags_def solo_def blank_def new_SelfMap_def new_array_def set_field_def

section \<open>The claims\<close>

text \<open>
  C1, as stated, fails in two ways. A record whose designated field is set to NaN is not
  found under NaN, since \<open>NaN === NaN\<close> is false; and a field set to the value it holds
  already leaves the record findable under the old value, which is the new one. (Sara,
  object 1, has the \<open>id\<close> 2, and no other record has the \<open>id\<close> 2 or NaN.)
\<close>

theorem live_key_counterexample:
  "this_values users 0 = [0, 1, 2] \<and> key_of users 0 0 = JNum 1 \<and>
   key_of users 0 1 = JNum 2 \<and> key_of users 0 2 = JNum 3 \<and>
   get 0 JNaN (set_field 1 (uniqueProperty 0 users) JNaN users) = JUndefined \<and>
   get 0 (JNum 2) (set_field 1 (uniqueProperty 0 users) (JNum 2) users) = JObj 1"
  by (simp add: store_eval get_def this_values_def key_of_def uniqueProperty_def strict_eq_def)

text \<open>
  C1, amended. Let \<open>r\<close> be stored, with \<open>oldValue\<close> in its designated field, and let no
  other stored record's designated field be \<open>===\<close> to \<open>oldValue\<close> or to
  \<open>newValue\<close>. When the field is set from outside to a \<open>newValue\<close> that is not NaN and
  differs from \<open>oldValue\<close>, then, with no call in between, \<open>get(newValue)\<close> returns
  \<open>r\<close> and \<open>get(oldValue)\<close> returns \<open>undefined\<close>. In any store, \<open>get(key)\<close>
  returns the first record of the backing sequence whose designated field is \<open>===\<close> to
  \<open>key\<close>, and \<open>undefined\<close> when there is none.
\<close>

theorem live_key:
  assumes "r \<in> set (this_values s this)"
    and "key_of s this r = oldValue"
    and "\<forall>ele\<in>set (this_values s this). ele \<noteq> r \<longrightarrow>
           \<not> strict_eq (key_of s this ele) oldValue \<and> \<not> strict_eq (key_of s this ele) newValue"
    and "newValue \<noteq> JNaN" and "newValue \<noteq> oldValue"
  shows "get this newValue (set_field r (uniqueProperty this s) newValue s) = JObj r \<and>
         get this oldValue (set_field r (uniqueProperty this s) newValue s) = JUndefined \<and>
         (i < length (this_values t this) \<and>
          strict_eq (key_of t this (this_values t this ! i)) key \<and>
          (\<forall>j<i. \<not> strict_eq (key_of t this (this_values t this ! j)) key) \<longrightarrow>
            get this key t = JObj (this_values t this ! i)) \<and>
         ((\<forall>ele\<in>set (this_values t this). \<not> strict_eq (key_of t this ele) key) \<longrightarrow>
            get this key t = JUndefined)"
proof (intro conjI impI)
  let ?s' = "set_field r (uniqueProperty this s) newValue s"
  let ?xs = "this_values s this"
  have key': "\<And>ele. key_of ?s' this ele = (if ele = r then newValue else key_of s this ele)"
    by (rule key_of_set_field)
  have "\<exists>x\<in>set ?xs. strict_eq (key_of ?s' this x) newValue"
    using assms(1,4) by (auto simp: key' strict_eq_def)
  then obtain n where n: "n < length ?xs" "strict_eq (key_of ?s' this (?xs ! n)) newValue"
      "\<forall>j<n. \<not> strict_eq (key_of ?s' this (?xs ! j)) newValue"
    using first_match [of ?xs "\<lambda>x. strict_eq (key_of ?s' this x) newValue"] by blast
  have "?xs ! n = r"
  proof (rule ccontr)
    assume other: "?xs ! n \<noteq> r"
    with n(1) assms(3) have "\<not> strict_eq (key_of s this (?xs ! n)) newValue" by simp
    with other n(2) show False by (simp add: key')
  qed
  with n show "get this newValue ?s' = JObj r"
    using get_loop_first [of n ?xs "key_of ?s' this" newValue] by (simp add: get_def)
  have "\<forall>x\<in>set ?xs. \<not> strict_eq (key_of ?s' this x) oldValue"
    using assms(3,5) by (auto simp: key' strict_eq_def)
  then show "get this oldValue ?s' = JUndefined"
    by (simp add: get_def get_loop_none)
next
  assume "i < length (this_values t this) \<and>
          strict_eq (key_of t this (this_values t this ! i)) key \<and>
          (\<forall>j<i. \<not> strict_eq (key_of t this (this_values t this ! j)) key)"
  then show "get this key t = JObj (this_values t this ! i)"
    by (simp add: get_def get_loop_first)
next
  assume "\<forall>ele\<in>set (this_values t this). \<not> strict_eq (key_of t this ele) key"
  then show "get this key t = JUndefined"
    by (simp add: get_def get_loop_none)
qed

theorem live_key_witness:
  "this_values users 0 = [0, 1, 2] \<and> key_of users 0 1 = JNum 2 \<and>
   key_of users 0 0 = JNum 1 \<and> key_of users 0 2 = JNum 3 \<and>
   get 0 (JNum 2) users = JObj 1 \<and>
   get 0 (JNum 4) (set_field 1 (uniqueProperty 0 users) (JNum 4) users) = JObj 1 \<and>
   get 0 (JNum 2) (set_field 1 (uniqueProperty 0 users) (JNum 4) users) = JUndefined \<and>
   get 0 (JNum 7) users = JUndefined"
proof -
  have xs: "this_values users 0 = [0, 1, 2]"
    by (simp add: store_eval this_values_def)
  have k: "key_of users 0 0 = JNum 1" "key_of users 0 (Suc 0) = JNum 2"
      "key_of users 0 2 = JNum 3"
    by (simp_all add: store_eval key_of_def)
  have others: "\<forall>ele\<in>set (this_values users 0). ele \<noteq> 1 \<longrightarrow>
      \<not> strict_eq (key_of users 0 ele) (JNum 2) \<and> \<not> strict_eq (key_of users 0 ele) (JNum 4)"
    by (simp add: xs k strict_eq_def)
  have first: "1 < length (this_values users 0) \<and>
      strict_eq (key_of users 0 (this_values users 0 ! 1)) (JNum 2) \<and>
      (\<forall>j<1. \<not> strict_eq (key_of users 0 (this_values users 0 ! j)) (JNum 2))"
    by (simp add: xs k strict_eq_def)
  have none: "\<forall>ele\<in>set (this_values users 0). \<not> strict_eq (key_of users 0 ele) (JNum 7)"
    by (simp add: xs k strict_eq_def)
  have "get 0 (JNum 4) (set_field 1 (uniqueProperty 0 users) (JNum 4) users) = JObj 1 \<and>
        get 0 (JNum 2) (set_field 1 (uniqueProperty 0 users) (JNum 4) users) = JUndefined \<and>
        (1 < length (this_values users 0) \<and>
          strict_eq (key_of users 0 (this_values users 0 ! 1)) (JNum 2) \<and>
          (\<forall>j<1. \<not> strict_eq (key_of users 0 (this_values users 0 ! j)) (JNum 2)) \<longrightarrow>
            get 0 (JNum 2) users = JObj (this_values users 0 ! 1)) \<and>
        ((\<forall>ele\<in>set (this_values users 0). \<not> strict_eq (key_of users 0 ele) (JNum 2)) \<longrightarrow>
            get 0 (JNum 2) users = JUndefined)"
    using others
    by (intro live_key [where r = 1 and oldValue = "JNum 2" and newValue = "JNum 4"
          and s = users and this = 0 and t = users and key = "JNum 2" and i = 1])
       (simp_all add: xs k)
  moreover have "get 0 (JNum 7) users = JUndefined"
    using live_key [where r = 1 and oldValue = "JNum 2" and newValue = "JNum 4"
          and s = users and this = 0 and t = users and key = "JNum 7" and i = 1] others none
    by (simp add: xs k)
  ultimately show ?thesis using first by (simp add: xs k)
qed

text \<open>
  C2, as stated, fails: \<open>keys()\<close> and \<open>entries()\<close> build their array with \<open>map\<close> when
  they are called, and the iterator walks that array. After \<open>keys()\<close> and one \<open>next()\<close>
  on the README's map, setting Sara's \<open>id\<close> from 2 to 4 does not reach the iterator: the next
  key it yields is 2, and the next entry of \<open>entries()\<close> is the pair of 2 and Sara.
\<close>

theorem keys_at_iteration_time_counterexample:
  "key_of (set_field 1 ''id'' (JNum 4) users) 0 1 = JNum 4 \<and>
   fst (iter_next (own (set_field 1 ''id'' (JNum 4) users))
          (advance 1 (own users) (keys 0 users))) = Some (JNum 2) \<and>
   fst (iter_next (own (set_field 1 ''id'' (JNum 4) users))
          (advance 1 (own users) (entries 0 users))) = Some (JNum 2, 1)"
  by (simp add: store_eval keys_def entries_def iter_next_def own_def this_values_def key_of_def)

text \<open>
  C2, amended. \<open>keys()\<close> and \<open>entries()\<close> produce the designated-field values in the
  order of the backing sequence as they are when \<open>keys()\<close> or \<open>entries()\<close> is called:
  a field set from outside before the call is reflected, and nothing that happens after the
  call changes what the iterator yields, neither at its start nor after \<open>n\<close> calls of
  \<open>next\<close>. Every call gives an iterator of its own that starts at the first record.
\<close>

theorem keys_entries_snapshot:
  "drain (own t) (keys this s) = map (key_of s this) (this_values s this) \<and>
   drain (own t) (entries this s) = map (\<lambda>ele. (key_of s this ele, ele)) (this_values s this) \<and>
   (n \<le> length (this_values s this) \<longrightarrow>
      drain (own t) (advance n (own u) (keys this s))
        = drop n (map (key_of s this) (this_values s this)) \<and>
      drain (own t) (advance n (own u) (entries this s))
        = drop n (map (\<lambda>ele. (key_of s this ele, ele)) (this_values s this))) \<and>
   drain (own t) (keys this (set_field r (uniqueProperty this s) v s))
     = map (\<lambda>ele. if ele = r then v else key_of s this ele) (this_values s this)"
proof (intro conjI impI)
  show "drain (own t) (keys this s) = map (key_of s this) (this_values s this)"
    by (simp add: keys_def drain_from own_def)
  show "drain (own t) (entries this s) = map (\<lambda>ele. (key_of s this ele, ele)) (this_values s this)"
    by (simp add: entries_def drain_from own_def)
  show "drain (own t) (keys this (set_field r (uniqueProperty this s) v s))
     = map (\<lambda>ele. if ele = r then v else key_of s this ele) (this_values s this)"
    by (simp add: keys_def drain_from own_def key_of_set_field)
next
  assume n: "n \<le> length (this_values s this)"
  let ?ks = "map (key_of s this) (this_values s this)"
  have "advance n (own u) (keys this s) = (keys this s)\<lparr>nextIndex := nextIndex (keys this s) + n\<rparr>"
    using n by (intro advance_within [where a = ?ks]) (simp_all add: keys_def own_def)
  then show "drain (own t) (advance n (own u) (keys this s)) = drop n ?ks"
    by (simp add: keys_def drain_from own_def)
  let ?es = "map (\<lambda>ele. (key_of s this ele, ele)) (this_values s this)"
  have "advance n (own u) (entries this s)
      = (entries this s)\<lparr>nextIndex := nextIndex (entries this s) + n\<rparr>"
    using n by (intro advance_within [where a = ?es]) (simp_all add: entries_def own_def)
  then show "drain (own t) (advance n (own u) (entries this s)) = drop n ?es"
    by (simp add: entries_def drain_from own_def)
qed

theorem keys_entries_snapshot_witness:
  "1 \<le> length (this_values users 0) \<and>
   drain (own (set_field 1 ''id'' (JNum 4) users)) (advance 1 (own users) (keys 0 users))
     = [JNum 2, JNum 3] \<and>
   drain (own (set_field 1 ''id'' (JNum 4) users)) (advance 1 (own users) (entries 0 users))
     = [(JNum 2, 1), (JNum 3, 2)] \<and>
   drain (own users) (keys 0 (set_field 1 (uniqueProperty 0 users) (JNum 4) users))
     = [JNum 1, JNum 4, JNum 3]"
proof -
  have xs: "this_values users 0 = [0, 1, 2]"
    by (simp add: store_eval this_values_def)
  have k: "key_of users 0 0 = JNum 1" "key_of users 0 (Suc 0) = JNum 2"
      "key_of users 0 2 = JNum 3"
    by (simp_all add: store_eval key_of_def)
  show ?thesis
    using keys_entries_snapshot [of "set_field 1 ''id'' (JNum 4) users" 0 users 1 users 1 "JNum 4"]
      keys_entries_snapshot [of users 0 users 1 users 1 "JNum 4"]
    by (simp add: xs k)
qed

text \<open>
  C3, as stated, fails for a key that is neither a string nor a number: \<open>add\<close> asks
  \<open>has\<close> whether the key is taken, and \<open>has\<close> compares such a value with the stored
  records themselves. With object 0 stored under the key \<open>true\<close>, adding object 1, whose
  key is \<open>true\<close> as well, appends it: nothing is replaced and the size grows.
\<close>

theorem add_upsert_counterexample:
  "this_values flags 0 = [0] \<and> key_of flags 0 0 = JBool True \<and>
   key_of flags 0 1 = JBool True \<and>
   this_values (snd (add 0 1 flags)) 0 = [0, 1] \<and>
   size_sm 0 flags = 1 \<and> size_sm 0 (snd (add 0 1 flags)) = 2"
  by (simp add: store_eval add_def has_def isKey_def this_values_def key_of_def
        store_values_def strict_eq_def size_sm_def)

text \<open>
  C3, amended. Let the first stored record whose designated field is \<open>===\<close> to \<open>k\<close> be
  \<open>A\<close>, at position \<open>i\<close>, and let \<open>k\<close> be a string or a number other than NaN. Then
  \<open>add(B)\<close>, for a record \<open>B\<close> with the key \<open>k\<close> that is not stored, puts \<open>B\<close> at
  position \<open>i\<close> in place of \<open>A\<close>, changes no other position and not the size, and
  returns the map.
\<close>

theorem add_upsert:
  assumes "i < length (this_values s this)"
    and "this_values s this ! i = A"
    and "key_of s this A = k"
    and "\<forall>j<i. \<not> strict_eq (key_of s this (this_values s this ! j)) k"
    and "key_of s this B = k"
    and "B \<notin> set (this_values s this)"
    and "isKey k" and "k \<noteq> JNaN"
  shows "fst (add this B s) = this \<and>
         this_values (snd (add this B s)) this = (this_values s this)[i := B] \<and>
         this_values (snd (add this B s)) this ! i = B \<and>
         size_sm this (snd (add this B s)) = size_sm this s"
proof -
  have hit: "strict_eq (key_of s this (this_values s this ! i)) (key_of s this B)"
    using assms(2,3,5,8) by (simp add: strict_eq_def)
  have "add this B s = (this, store_values this ((this_values s this)[i := B]) s)"
    using assms(1,4,5,6,7) hit by (intro add_replace) auto
  then show ?thesis using assms(1) by (simp add: size_sm_def)
qed

theorem add_upsert_witness:
  "this_values users 0 = [0, 1, 2] \<and> key_of users 0 1 = JNum 2 \<and>
   key_of (set_field 3 ''id'' (JNum 2) users) 0 3 = JNum 2 \<and>
   fst (add 0 3 (set_field 3 ''id'' (JNum 2) users)) = 0 \<and>
   this_values (snd (add 0 3 (set_field 3 ''id'' (JNum 2) users))) 0 = [0, 3, 2] \<and>
   size_sm 0 (snd (add 0 3 (set_field 3 ''id'' (JNum 2) users))) = 3"
proof -
  let ?s = "set_field 3 ''id'' (JNum 2) users"
  have xs: "this_values ?s 0 = [0, 1, 2]" "this_values users 0 = [0, 1, 2]"
    by (simp_all add: store_eval this_values_def)
  have k: "key_of ?s 0 0 = JNum 1" "key_of ?s 0 (Suc 0) = JNum 2" "key_of ?s 0 3 = JNum 2"
      "key_of users 0 (Suc 0) = JNum 2"
    by (simp_all add: store_eval key_of_def)
  have first: "\<forall>j<1. \<not> strict_eq (key_of ?s 0 (this_values ?s 0 ! j)) (JNum 2)"
    by (simp add: xs k strict_eq_def)
  have "fst (add 0 3 ?s) = 0 \<and>
         this_values (snd (add 0 3 ?s)) 0 = (this_values ?s 0)[1 := 3] \<and>
         this_values (snd (add 0 3 ?s)) 0 ! 1 = 3 \<and>
         size_sm 0 (snd (add 0 3 ?s)) = size_sm 0 ?s"
    using first by (intro add_upsert [where A = 1 and k = "JNum 2"]) (simp_all add: xs k isKey_def)
  then show ?thesis by (simp add: xs k size_sm_def)
qed

text \<open>
  C4. A record that is stored already is not added again: \<open>add(r)\<close> returns the map and
  leaves the whole store, and with it the backing sequence, as it was. A second
  \<open>add(r)\<close> therefore changes nothing that the first one has left.
\<close>

theorem add_no_duplicate:
  "(r \<in> set (this_values s this) \<longrightarrow> add this r s = (this, s)) \<and>
   snd (add this r (snd (add this r s))) = snd (add this r s)"
proof
  show "r \<in> set (this_values s this) \<longrightarrow> add this r s = (this, s)"
    by (simp add: add_stored)
next
  from add_cases [of this r s]
  show "snd (add this r (snd (add this r s))) = snd (add this r s)"
  proof
    assume "snd (add this r s) = s"
    then show ?thesis by simp
  next
    assume "r \<in> set (this_values (snd (add this r s)) this)"
    then show ?thesis by (simp add: add_stored)
  qed
qed

theorem add_no_duplicate_witness:
  "1 \<in> set (this_values users 0) \<and> add 0 1 users = (0, users) \<and>
   snd (add 0 3 (snd (add 0 3 users))) = snd (add 0 3 users)"
proof -
  have "1 \<in> set (this_values users 0)"
    by (simp add: users_def blank_def new_SelfMap_def new_array_def set_field_def
          this_values_def)
  then show ?thesis using add_no_duplicate [of 1 users 0] add_no_duplicate [of 3 users 0]
    by simp
qed

text \<open>
  C5, as stated, fails for a key that is neither a string nor a number, or is NaN. In the map keyed on the
  boolean \<open>flag\<close>, object 0 is stored and holds the key \<open>true\<close>, yet \<open>has(true)\<close>
  is false: \<open>has\<close> takes \<open>true\<close> for a record and finds no stored record that is
  \<open>true\<close>. And once Sara's \<open>id\<close> is NaN, a number at runtime, \<open>has(NaN)\<close> is false
  though a stored record holds NaN, since \<open>NaN === NaN\<close> is false.
\<close>

theorem has_dual_shape_counterexample:
  "this_values flags 0 = [0] \<and> key_of flags 0 0 = JBool True \<and>
   \<not> has 0 (key_of flags 0 0) flags \<and>
   this_values (set_field 1 ''id'' JNaN users) 0 = [0, 1, 2] \<and>
   key_of (set_field 1 ''id'' JNaN users) 0 1 = JNaN \<and>
   typeof JNaN = ''number'' \<and>
   \<not> has 0 (key_of (set_field 1 ''id'' JNaN users) 0 1) (set_field 1 ''id'' JNaN users)"
  by (simp add: store_eval has_def isKey_def this_values_def key_of_def strict_eq_def)

text \<open>
  C5, amended. \<open>has\<close> answers by the runtime type of its argument. For a string or a
  number other than NaN it tells whether some stored record's designated field holds that
  value; for anything that is not a string or a number, a record in particular, it tells
  whether some stored record is that very object. So a record that is in the map is found
  whatever keys the other records have, and \<open>has(r.f)\<close>, for \<open>r.f\<close> a string or a
  number other than NaN, tells whether some stored record holds that key now.
\<close>

theorem has_dual_shape:
  "(isKey x \<and> x \<noteq> JNaN \<longrightarrow>
      has this x s = (\<exists>ele\<in>set (this_values s this). key_of s this ele = x)) \<and>
   (\<not> isKey x \<longrightarrow> has this x s = (\<exists>ele\<in>set (this_values s this). JObj ele = x)) \<and>
   (r \<in> set (this_values s this) \<longrightarrow> has this (JObj r) s) \<and>
   (isKey (key_of s this r) \<and> key_of s this r \<noteq> JNaN \<longrightarrow>
      has this (key_of s this r) s =
        (\<exists>ele\<in>set (this_values s this). key_of s this ele = key_of s this r))"
proof (intro conjI impI)
  assume "isKey x \<and> x \<noteq> JNaN"
  then show "has this x s = (\<exists>ele\<in>set (this_values s this). key_of s this ele = x)"
    by (simp add: has_key strict_eq_plain)
next
  assume "\<not> isKey x"
  then show "has this x s = (\<exists>ele\<in>set (this_values s this). JObj ele = x)"
    by (rule has_record)
next
  assume "r \<in> set (this_values s this)"
  then show "has this (JObj r) s" by (simp add: has_stored)
next
  assume "isKey (key_of s this r) \<and> key_of s this r \<noteq> JNaN"
  then show "has this (key_of s this r) s =
      (\<exists>ele\<in>set (this_values s this). key_of s this ele = key_of s this r)"
    by (simp add: has_key strict_eq_plain)
qed

theorem has_dual_shape_witness:
  "isKey (JNum 2) \<and> has 0 (JNum 2) users \<and> \<not> has 0 (JNum 4) users \<and>
   \<not> isKey (JObj 3) \<and> \<not> has 0 (JObj 3) users \<and>
   2 \<in> set (this_values users 0) \<and> has 0 (JObj 2) users \<and>
   isKey (key_of users 0 2) \<and> key_of users 0 2 = JNum 3 \<and> has 0 (key_of users 0 2) users \<and>
   isKey (JStr ''Sara'') \<and> \<not> has 0 (JStr ''Sara'') users"
proof -
  have xs: "this_values users 0 = [0, 1, 2]"
    by (simp add: store_eval this_values_def)
  have k: "key_of users 0 0 = JNum 1" "key_of users 0 (Suc 0) = JNum 2"
      "key_of users 0 2 = JNum 3"
    by (simp_all add: store_eval key_of_def)
  have scalar: "isKey (JNum 2)" "isKey (JNum 3)" "isKey (JNum 4)" "isKey (JStr ''Sara'')"
      "\<not> isKey (JObj 3)"
    by (simp_all add: isKey_def)
  show ?thesis
    using has_dual_shape [of "JNum 2" 0 users 2] has_dual_shape [of "JObj 3" 0 users 2]
      has_dual_shape [of "JNum 4" 0 users 2] has_dual_shape [of "JStr ''Sara''" 0 users 2] scalar
    by (simp add: xs k)
qed

text \<open>
  C6, as stated, fails for a key that is neither a string nor a number, or is NaN. In the map keyed on the
  boolean \<open>flag\<close>, \<open>delete(true)\<close> removes nothing and returns \<open>undefined\<close>, though
  the stored object 0 holds the key \<open>true\<close>: \<open>delete\<close> takes \<open>true\<close> for a
  record. And once Sara's \<open>id\<close> is NaN, \<open>delete(NaN)\<close> removes nothing either, since
  \<open>NaN === NaN\<close> is false.
\<close>

theorem delete_dual_return_counterexample:
  "this_values flags 0 = [0] \<and> key_of flags 0 0 = JBool True \<and>
   delete 0 (JBool True) flags = (Inr JUndefined, flags) \<and>
   this_values (set_field 1 ''id'' JNaN users) 0 = [0, 1, 2] \<and>
   key_of (set_field 1 ''id'' JNaN users) 0 1 = JNaN \<and>
   delete 0 JNaN (set_field 1 ''id'' JNaN users)
     = (Inr JUndefined, set_field 1 ''id'' JNaN users)"
proof -
  have "\<not> has 0 (JBool True) flags"
    by (simp add: store_eval has_def isKey_def this_values_def strict_eq_def)
  moreover have "\<not> has 0 JNaN (set_field 1 ''id'' JNaN users)"
    by (simp add: has_def isKey_def array_some_iff strict_eq_def)
  ultimately show ?thesis
    by (simp add: delete_miss) (simp add: store_eval this_values_def key_of_def)
qed

text \<open>
  C6, amended. \<open>delete\<close> with a string or a number other than NaN removes the first
  record whose designated field holds that value and returns that record; with anything that
  is not a string or a number, a record in particular, it removes the first stored record
  that is the very object given and returns the value of that record's designated field. In
  both shapes the backing sequence loses exactly the element at that position and keeps the
  others in their order; with no match \<open>delete\<close> returns \<open>undefined\<close> and the store
  is unchanged. No call throws.
\<close>

theorem delete_dual_return:
  "(isKey x \<and> x \<noteq> JNaN \<and> i < length (this_values s this) \<and>
    key_of s this (this_values s this ! i) = x \<and>
    (\<forall>j<i. key_of s this (this_values s this ! j) \<noteq> x) \<longrightarrow>
      delete this x s =
        (Inr (JObj (this_values s this ! i)),
         store_values this (take i (this_values s this) @ drop (Suc i) (this_values s this)) s) \<and>
      this_values (snd (delete this x s)) this =
        take i (this_values s this) @ drop (Suc i) (this_values s this) \<and>
      Suc (size_sm this (snd (delete this x s))) = size_sm this s) \<and>
   (\<not> isKey x \<and> i < length (this_values s this) \<and>
    JObj (this_values s this ! i) = x \<and>
    (\<forall>j<i. this_values s this ! j \<noteq> this_values s this ! i) \<longrightarrow>
      delete this x s =
        (Inr (key_of s this (this_values s this ! i)),
         store_values this (take i (this_values s this) @ drop (Suc i) (this_values s this)) s) \<and>
      this_values (snd (delete this x s)) this =
        take i (this_values s this) @ drop (Suc i) (this_values s this) \<and>
      Suc (size_sm this (snd (delete this x s))) = size_sm this s) \<and>
   ((isKey x \<and> x \<noteq> JNaN \<and> (\<forall>ele\<in>set (this_values s this). key_of s this ele \<noteq> x)) \<or>
    (\<not> isKey x \<and> (\<forall>ele\<in>set (this_values s this). JObj ele \<noteq> x)) \<longrightarrow>
      delete this x s = (Inr JUndefined, s))"
proof (intro conjI impI)
  assume h: "isKey x \<and> x \<noteq> JNaN \<and> i < length (this_values s this) \<and>
    key_of s this (this_values s this ! i) = x \<and>
    (\<forall>j<i. key_of s this (this_values s this ! j) \<noteq> x)"
  then have eq: "delete this x s =
        (Inr (JObj (this_values s this ! i)),
         store_values this (take i (this_values s this) @ drop (Suc i) (this_values s this)) s)"
    by (intro delete_key_hit) (auto simp: strict_eq_plain)
  then show "delete this x s =
        (Inr (JObj (this_values s this ! i)),
         store_values this (take i (this_values s this) @ drop (Suc i) (this_values s this)) s)" .
  from eq show "this_values (snd (delete this x s)) this =
        take i (this_values s this) @ drop (Suc i) (this_values s this)"
    by simp
  from h have "i < length (this_values s this)" by simp
  with eq show "Suc (size_sm this (snd (delete this x s))) = size_sm this s"
    by (simp add: size_sm_def)
next
  assume h: "\<not> isKey x \<and> i < length (this_values s this) \<and>
    JObj (this_values s this ! i) = x \<and>
    (\<forall>j<i. this_values s this ! j \<noteq> this_values s this ! i)"
  then have eq: "delete this x s =
        (Inr (key_of s this (this_values s this ! i)),
         store_values this (take i (this_values s this) @ drop (Suc i) (this_values s this)) s)"
    by (intro delete_record_hit) auto
  then show "delete this x s =
        (Inr (key_of s this (this_values s this ! i)),
         store_values this (take i (this_values s this) @ drop (Suc i) (this_values s this)) s)" .
  from eq show "this_values (snd (delete this x s)) this =
        take i (this_values s this) @ drop (Suc i) (this_values s this)"
    by simp
  from h have "i < length (this_values s this)" by simp
  with eq show "Suc (size_sm this (snd (delete this x s))) = size_sm this s"
    by (simp add: size_sm_def)
next
  assume "(isKey x \<and> x \<noteq> JNaN \<and>
      (\<forall>ele\<in>set (this_values s this). key_of s this ele \<noteq> x)) \<or>
    (\<not> isKey x \<and> (\<forall>ele\<in>set (this_values s this). JObj ele \<noteq> x))"
  then have "\<not> has this x s"
    by (auto simp: has_key has_record strict_eq_plain)
  then show "delete this x s = (Inr JUndefined, s)"
    by (rule delete_miss)
qed

theorem delete_dual_return_witness:
  "isKey (JNum 2) \<and> this_values users 0 = [0, 1, 2] \<and> key_of users 0 1 = JNum 2 \<and>
   fst (delete 0 (JNum 2) users) = Inr (JObj 1) \<and>
   this_values (snd (delete 0 (JNum 2) users)) 0 = [0, 2] \<and>
   \<not> isKey (JObj 2) \<and>
   fst (delete 0 (JObj 2) users) = Inr (JNum 3) \<and>
   this_values (snd (delete 0 (JObj 2) users)) 0 = [0, 1] \<and>
   delete 0 (JNum 4) users = (Inr JUndefined, users) \<and>
   delete 0 (JObj 3) users = (Inr JUndefined, users) \<and>
   isKey (JStr ''Sara'') \<and> delete 0 (JStr ''Sara'') users = (Inr JUndefined, users)"
proof -
  have xs: "this_values users 0 = [0, 1, 2]"
    by (simp add: store_eval this_values_def)
  have k: "key_of users 0 0 = JNum 1" "key_of users 0 (Suc 0) = JNum 2"
      "key_of users 0 2 = JNum 3"
    by (simp_all add: store_eval key_of_def)
  have scalar: "isKey (JNum 2)" "isKey (JNum 4)" "isKey (JStr ''Sara'')"
      "\<not> isKey (JObj 2)" "\<not> isKey (JObj 3)"
    by (simp_all add: isKey_def)
  have first: "\<forall>j<2. [0, Suc 0, 2::nat] ! j \<noteq> 2"
    by (auto simp: nth_Cons split: nat.splits)
  show ?thesis
    using delete_dual_return [of "JNum 2" 1 users 0] delete_dual_return [of "JObj 2" 2 users 0]
      delete_dual_return [of "JNum 4" 0 users 0] delete_dual_return [of "JObj 3" 0 users 0]
      delete_dual_return [of "JStr ''Sara''" 0 users 0] scalar first
    by (simp add: xs k)
qed

text \<open>
  C7, as stated, fails: \<open>add\<close> looks for a record of the same key through \<open>has\<close>,
  which treats only a string or a number as a key. In a map keyed on a boolean field, a
  second object with the key \<open>true\<close> is appended beside the first.
\<close>

theorem api_keeps_keys_distinct_counterexample:
  "distinct (map (key_of flags 0) (this_values flags 0)) \<and>
   map (key_of (snd (add 0 1 flags)) 0) (this_values (snd (add 0 1 flags)) 0)
     = [JBool True, JBool True] \<and>
   \<not> distinct (map (key_of (snd (add 0 1 flags)) 0) (this_values (snd (add 0 1 flags)) 0))"
  by (simp add: store_eval add_def has_def isKey_def this_values_def key_of_def
        store_values_def strict_eq_def)

text \<open>
  C7, amended. In a map whose stored records have pairwise distinct designated-field
  values, they are still pairwise distinct after \<open>add(r)\<close> when \<open>r\<close> is stored already
  or its designated field holds a string or a number other than NaN, after any
  \<open>delete\<close>, and after \<open>clear\<close> (no field being set from outside in between).
\<close>

theorem api_keeps_keys_distinct:
  assumes "distinct (map (key_of s this) (this_values s this))"
  shows "(r \<in> set (this_values s this) \<or>
          (isKey (key_of s this r) \<and> key_of s this r \<noteq> JNaN) \<longrightarrow>
            distinct (map (key_of (snd (add this r s)) this)
                       (this_values (snd (add this r s)) this))) \<and>
         distinct (map (key_of (snd (delete this x s)) this)
                    (this_values (snd (delete this x s)) this)) \<and>
         distinct (map (key_of (clear this s) this) (this_values (clear this s) this))"
proof (intro conjI impI)
  let ?xs = "this_values s this"
  let ?k = "key_of s this r"
  assume ok: "r \<in> set ?xs \<or> (isKey ?k \<and> ?k \<noteq> JNaN)"
  show "distinct (map (key_of (snd (add this r s)) this)
                   (this_values (snd (add this r s)) this))"
  proof (cases "r \<in> set ?xs")
    case True
    with assms show ?thesis by (simp add: add_stored)
  next
    case out: False
    with ok have scalar: "isKey ?k" and num: "?k \<noteq> JNaN" by auto
    show ?thesis
    proof (cases "has this ?k s")
      case False
      with scalar num have "?k \<notin> set (map (key_of s this) ?xs)"
        by (auto simp: has_key strict_eq_def)
      with assms out False show ?thesis by (simp add: add_push)
    next
      case True
      with scalar obtain i where i: "i < length ?xs"
          "strict_eq (key_of s this (?xs ! i)) ?k"
          "\<forall>j<i. \<not> strict_eq (key_of s this (?xs ! j)) ?k"
        using first_match [of ?xs "\<lambda>ele. strict_eq (key_of s this ele) ?k"]
        by (auto simp: has_key)
      then have same: "(map (key_of s this) ?xs)[i := ?k] = map (key_of s this) ?xs"
        by (simp add: strict_eq_def list_update_same_conv)
      have "map (key_of s this) (?xs[i := r]) = (map (key_of s this) ?xs)[i := ?k]"
        by (simp add: map_update)
      with same assms out scalar i show ?thesis by (simp add: add_replace)
    qed
  qed
next
  from delete_cases [of this x s]
  show "distinct (map (key_of (snd (delete this x s)) this)
                   (this_values (snd (delete this x s)) this))"
  proof
    assume "delete this x s = (Inr JUndefined, s)"
    with assms show ?thesis by simp
  next
    assume "\<exists>i<length (this_values s this). \<exists>v.
      delete this x s =
        (Inr v, store_values this
                  (take i (this_values s this) @ drop (Suc i) (this_values s this)) s)"
    then obtain i v where eq: "delete this x s =
        (Inr v, store_values this
                  (take i (this_values s this) @ drop (Suc i) (this_values s this)) s)"
      by blast
    have "distinct (take i (map (key_of s this) (this_values s this)) @
                    drop (Suc i) (map (key_of s this) (this_values s this)))"
      using assms by (rule distinct_remove_nth)
    with eq show ?thesis by (simp add: take_map drop_map)
  qed
next
  show "distinct (map (key_of (clear this s) this) (this_values (clear this s) this))"
    by simp
qed

theorem api_keeps_keys_distinct_witness:
  "distinct (map (key_of users 0) (this_values users 0)) \<and>
   isKey (key_of users 0 3) \<and> key_of users 0 3 \<noteq> JNaN \<and>
   distinct (map (key_of (snd (add 0 3 users)) 0) (this_values (snd (add 0 3 users)) 0)) \<and>
   distinct (map (key_of (snd (delete 0 (JNum 2) users)) 0)
              (this_values (snd (delete 0 (JNum 2) users)) 0)) \<and>
   distinct (map (key_of (clear 0 users) 0) (this_values (clear 0 users) 0))"
proof -
  have xs: "this_values users 0 = [0, 1, 2]"
    by (simp add: store_eval this_values_def)
  have k: "key_of users 0 0 = JNum 1" "key_of users 0 (Suc 0) = JNum 2"
      "key_of users 0 2 = JNum 3" "key_of users 0 3 = JNum 4"
    by (simp_all add: store_eval key_of_def)
  have d: "distinct (map (key_of users 0) (this_values users 0))"
    by (simp add: xs k)
  show ?thesis
    using api_keeps_keys_distinct [OF d, of 3 "JNum 2"] d
    by (simp add: k isKey_def)
qed

text \<open>
  C8 does not hold of the code. For a map of the one object \<open>{ id: 1 }\<close>, \<open>print\<close>
  hands the record to \<open>console.log\<close>, which writes it in the inspection format, while
  \<open>toString\<close> puts it into a template literal, which converts it to
  \<open>[object Object]\<close>: the header, the key and the closing brace agree, the record's text
  does not.
\<close>

theorem print_toString_record_text:
  "console (print id_inspect plain_str 0 solo)
     = [''SelfMap(1) {'', ''  1 => { id: 1 }'', ''}''] \<and>
   toString plain_str 0 solo
     = ''SelfMap(1) {'' @ newline @ ''  1 => [object Object]'' @ newline @ ''}'' \<and>
   join_with newline (console (print id_inspect plain_str 0 solo)) \<noteq> toString plain_str 0 solo"
proof -
  have xs: "this_values solo 0 = [0]" "console solo = []"
    by (simp_all add: store_eval this_values_def)
  have k: "key_of solo 0 0 = JNum 1" "objects solo 0 ''id'' = JNum 1"
    by (simp_all add: store_eval key_of_def)
  have num: "plain_str (objects solo) (JNum 1) = ''1''"
    by (simp add: plain_str_def digit_def)
  have p: "console (print id_inspect plain_str 0 solo)
     = [''SelfMap(1) {'', ''  1 => { id: 1 }'', ''}'']"
    by (simp add: print_console xs k size_sm_def format_arg_def id_inspect_def num)
  have t: "toString plain_str 0 solo
     = ''SelfMap(1) {'' @ newline @ ''  1 => [object Object]'' @ newline @ ''}''"
    by (simp add: toString_lines xs k size_sm_def plain_str_def digit_def)
  show ?thesis
    unfolding p t by (simp add: newline_def)
qed

text \<open>
  C9. After \<open>clear()\<close> the size is 0 and \<open>get\<close> of any key returns \<open>undefined\<close>.
  \<open>uniqueProperty\<close> is the field name given to the constructor, and stays so through any
  program that follows the construction: calls of \<open>has\<close>, \<open>get\<close>, \<open>add\<close>,
  \<open>delete\<close>, \<open>clear\<close>, \<open>keys\<close>, \<open>values\<close>, \<open>entries\<close>, \<open>print\<close> and
  \<open>toString\<close> on this or any other map, fields set from outside, new arrays and new maps.
\<close>

theorem uniqueProperty_constant:
  "size_sm this (clear this s) = 0 \<and>
   get this key (clear this s) = JUndefined \<and>
   uniqueProperty this (clear this s) = uniqueProperty this s \<and>
   uniqueProperty (fst (new_SelfMap objs uniq s)) (snd (new_SelfMap objs uniq s)) = uniq \<and>
   uniqueProperty (fst (new_SelfMap objs uniq s)) (run cs (snd (new_SelfMap objs uniq s))) = uniq \<and>
   (this < next_mref s \<longrightarrow> uniqueProperty this (run cs s) = uniqueProperty this s)"
proof (intro conjI impI)
  show "size_sm this (clear this s) = 0" by (simp add: size_sm_def)
  show "get this key (clear this s) = JUndefined" by (rule get_clear)
  show "uniqueProperty this (clear this s) = uniqueProperty this s"
    by (simp add: uniqueProperty_def clear_def)
  show made: "uniqueProperty (fst (new_SelfMap objs uniq s)) (snd (new_SelfMap objs uniq s)) = uniq"
    by (simp add: uniqueProperty_def new_SelfMap_def)
  have "fst (new_SelfMap objs uniq s) < next_mref (snd (new_SelfMap objs uniq s))"
    by (simp add: new_SelfMap_def)
  then show "uniqueProperty (fst (new_SelfMap objs uniq s)) (run cs (snd (new_SelfMap objs uniq s))) = uniq"
    using run_uniqueProperty [of "fst (new_SelfMap objs uniq s)" "snd (new_SelfMap objs uniq s)" cs]
      made by simp
next
  assume "this < next_mref s"
  then show "uniqueProperty this (run cs s) = uniqueProperty this s"
    by (simp add: run_uniqueProperty)
qed

theorem uniqueProperty_constant_witness:
  "size_sm 0 (clear 0 users) = 0 \<and>
   get 0 (JNum 2) (clear 0 users) = JUndefined \<and>
   0 < next_mref users \<and> uniqueProperty 0 users = ''id'' \<and>
   uniqueProperty 0
     (run [Add 0 3, Delete 0 (JNum 1), SetField 2 ''id'' (JNum 9), Has 0 (JNum 9),
           NewArray [3], NewSelfMap 1 ''name'', Clear 0, Add 0 2] users) = ''id''"
proof -
  have made: "0 < next_mref users" "uniqueProperty 0 users = ''id''"
    by (simp_all add: store_eval uniqueProperty_def)
  show ?thesis
    using uniqueProperty_constant [of 0 users "JNum 2" 0 "''id''"
        "[Add 0 3, Delete 0 (JNum 1), SetField 2 ''id'' (JNum 9), Has 0 (JNum 9),
          NewArray [3], NewSelfMap 1 ''name'', Clear 0, Add 0 2]"] made
    by simp
qed

text \<open>
  C10. The iterator of \<open>values()\<close> walks the backing array itself. Let it have yielded
  the first \<open>n\<close> records. A record that \<open>add\<close> then appends is yielded, after the
  records that were left. After a \<open>delete\<close> the iterator yields what the array holds
  from position \<open>n\<close> on, so a record removed from a position the iterator had not reached
  is never yielded (the records being distinct). After \<open>clear()\<close> the map is empty, yet
  the iterator goes on over the records of the array it was made for, the map's array
  having been allocated by the program.
\<close>

theorem values_iterates_live_array:
  assumes "n \<le> length (this_values s this)"
  shows "(k < length (this_values s this) \<longrightarrow>
            fst (iter_next (live s) (advance k (live s) (values_sm this s)))
              = Some (this_values s this ! k)) \<and>
         (r \<notin> set (this_values s this) \<and> \<not> has this (key_of s this r) s \<longrightarrow>
            drain (live (snd (add this r s))) (advance n (live s) (values_sm this s))
              = drop n (this_values s this) @ [r]) \<and>
         drain (live (snd (delete this x s))) (advance n (live s) (values_sm this s))
           = drop n (this_values (snd (delete this x s)) this) \<and>
         (i < length (this_values s this) \<and> n \<le> i \<and> distinct (this_values s this) \<and>
          this_values (snd (delete this x s)) this
            = take i (this_values s this) @ drop (Suc i) (this_values s this) \<longrightarrow>
            this_values s this ! i \<notin> set (take n (this_values s this)) \<and>
            this_values s this ! i \<notin>
              set (drain (live (snd (delete this x s))) (advance n (live s) (values_sm this s)))) \<and>
         (values_f (maps s this) < next_aref s \<longrightarrow>
            this_values (clear this s) this = [] \<and>
            drain (live (clear this s)) (advance n (live s) (values_sm this s))
              = drop n (this_values s this))"
proof (intro conjI impI)
  let ?xs = "this_values s this"
  let ?a = "values_f (maps s this)"
  let ?it = "advance n (live s) (values_sm this s)"
  {
    assume "k < length ?xs"
    then show "fst (iter_next (live s) (advance k (live s) (values_sm this s))) = Some (?xs ! k)"
      by (simp add: values_advance iter_next_def live_def this_values_def)
  }
  {
    assume "r \<notin> set ?xs \<and> \<not> has this (key_of s this r) s"
    then have "snd (add this r s) = store_values this (?xs @ [r]) s"
      by (simp add: add_push)
    then show "drain (live (snd (add this r s))) ?it = drop n ?xs @ [r]"
      using assms by (simp add: values_drain_later store_values_def)
  }
  have maps_delete: "maps (snd (delete this x s)) = maps s"
    using delete_store_cases [of this x s] by auto
  show after_delete: "drain (live (snd (delete this x s))) ?it
      = drop n (this_values (snd (delete this x s)) this)"
    using assms by (simp add: values_drain_later this_values_def maps_delete)
  {
    assume h: "i < length ?xs \<and> n \<le> i \<and> distinct ?xs \<and>
      this_values (snd (delete this x s)) this = take i ?xs @ drop (Suc i) ?xs"
    then have "distinct (take i ?xs @ ?xs ! i # drop (Suc i) ?xs)"
      using id_take_nth_drop [of i ?xs] by simp
    then have out: "?xs ! i \<notin> set (take i ?xs)" "?xs ! i \<notin> set (drop (Suc i) ?xs)"
      by auto
    have "set (take n ?xs) \<subseteq> set (take i ?xs)"
      using h by (simp add: set_take_subset_set_take)
    with out(1) show "?xs ! i \<notin> set (take n ?xs)" by blast
    have "set (drop n (take i ?xs @ drop (Suc i) ?xs)) \<subseteq> set (take i ?xs @ drop (Suc i) ?xs)"
      by (rule set_drop_subset)
    with out h show "?xs ! i \<notin> set (drain (live (snd (delete this x s))) ?it)"
      by (auto simp: after_delete)
  }
  {
    assume "?a < next_aref s"
    then have "arrays (clear this s) ?a = arrays s ?a"
      by (simp add: clear_def)
    then show "drain (live (clear this s)) ?it = drop n ?xs"
      using assms by (simp add: values_drain_later this_values_def)
  }
  show "this_values (clear this s) this = []" by simp
qed

theorem values_iterates_live_array_witness:
  "this_values users 0 = [0, 1, 2] \<and>
   fst (iter_next (live users) (advance 0 (live users) (values_sm 0 users))) = Some 0 \<and>
   drain (live (snd (add 0 3 users))) (advance 1 (live users) (values_sm 0 users)) = [1, 2, 3] \<and>
   drain (live (snd (delete 0 (JNum 3) users))) (advance 1 (live users) (values_sm 0 users)) = [1] \<and>
   2 \<notin> set (drain (live (snd (delete 0 (JNum 3) users)))
               (advance 1 (live users) (values_sm 0 users))) \<and>
   this_values (clear 0 users) 0 = [] \<and>
   drain (live (clear 0 users)) (advance 1 (live users) (values_sm 0 users)) = [1, 2]"
proof -
  have xs: "this_values users 0 = [0, 1, 2]"
    by (simp add: store_eval this_values_def)
  have k: "key_of users 0 0 = JNum 1" "key_of users 0 (Suc 0) = JNum 2"
      "key_of users 0 2 = JNum 3" "key_of users 0 3 = JNum 4"
    by (simp_all add: store_eval key_of_def)
  have n: "1 \<le> length (this_values users 0)" by (simp add: xs)
  have fresh: "3 \<notin> set (this_values users 0) \<and> \<not> has 0 (key_of users 0 3) users"
    by (simp add: xs k has_key isKey_def strict_eq_def)
  have first: "\<forall>j<2. \<not> strict_eq (key_of users 0 (this_values users 0 ! j)) (JNum 3)"
    by (auto simp: xs k nth_Cons strict_eq_def split: nat.splits)
  have gone: "this_values (snd (delete 0 (JNum 3) users)) 0 = [0, 1]"
    using delete_key_hit [of "JNum 3" 2 users 0] first
    by (simp add: xs k isKey_def strict_eq_def)
  have wf: "values_f (maps users 0) < next_aref users"
    by (simp add: store_eval)
  show ?thesis
    using values_iterates_live_array [OF n, of 0 3 "JNum 3" 2] fresh gone wf
    by (simp add: xs)
qed

end
